theory Spec2Isabelle
  imports Main "HOL-Library.Sublist" "HOL-Library.AList"
begin

unbundle bit_operations_syntax

section \<open>The tokenizer of \<^verbatim>\<open>ranger/gui/ansi.py\<close>\<close>

text \<open>
  Strings are lists of \<^typ>\<open>char\<close>, read as the code points 0..255. Over these code points
  the class \<^verbatim>\<open>\d\<close> of Python's \<^verbatim>\<open>re\<close> holds the ten ASCII digits only, and no code
  point is a wide glyph.

  \<^verbatim>\<open>ansi_re = re.compile('(\x1b' + r'\[\d*(?:;\d+)*?[a-zA-Z])')\<close>
\<close>

definition ESC :: char where
  "ESC = CHR 0x1B"

definition is_digit :: "char \<Rightarrow> bool" where
  "is_digit c = (c \<in> set ''0123456789'')"

definition is_letter :: "char \<Rightarrow> bool" where
  "is_letter c = (c \<in> set ''abcdefghijklmnopqrstuvwxyzABCDEFGHIJKLMNOPQRSTUVWXYZ'')"

text \<open>
  \<^verbatim>\<open>(?:;\d+)*?[a-zA-Z]\<close> tried at the head of a string: the lazy star first tries the
  terminating letter, and takes one more group \<^verbatim>\<open>;\d+\<close> only when there is no letter.
  The result is the matched text and the unread rest. Giving a digit back never helps (the
  next character would be a digit, which is neither \<^verbatim>\<open>;\<close> nor a letter), so the greedy
  \<^verbatim>\<open>\d+\<close> is \<open>takeWhile\<close>.
\<close>

function ansi_groups :: "string \<Rightarrow> (string \<times> string) option" where
  "ansi_groups [] = None"
| "ansi_groups (c # cs) =
     (if is_letter c then Some ([c], cs)
      else if c = CHR '';'' \<and> takeWhile is_digit cs \<noteq> [] then
        (case ansi_groups (dropWhile is_digit cs) of
           None \<Rightarrow> None
         | Some (m, r) \<Rightarrow> Some (c # takeWhile is_digit cs @ m, r))
      else None)"
  by pat_completeness auto
termination
  by (relation "measure length") (auto simp: length_dropWhile_le less_Suc_eq_le)

text \<open>The whole pattern, tried at the head of a string (what \<^verbatim>\<open>ansi_re.match\<close> does).\<close>

fun ansi_match :: "string \<Rightarrow> (string \<times> string) option" where
  "ansi_match (e # b # cs) =
     (if e = ESC \<and> b = CHR ''['' then
        (case ansi_groups (dropWhile is_digit cs) of
           None \<Rightarrow> None
         | Some (m, r) \<Rightarrow> Some (e # b # takeWhile is_digit cs @ m, r))
      else None)"
| "ansi_match _ = None"

lemma ansi_groups_decomp: "ansi_groups s = Some (m, r) \<Longrightarrow> s = m @ r \<and> m \<noteq> []"
proof (induction s arbitrary: m r rule: ansi_groups.induct)
  case 1
  then show ?case by simp
next
  case (2 c cs)
  show ?case
  proof (cases "is_letter c")
    case True
    with "2.prems" show ?thesis by auto
  next
    case False
    with "2.prems" obtain m' where g: "ansi_groups (dropWhile is_digit cs) = Some (m', r)"
      and c: "c = CHR '';''" "takeWhile is_digit cs \<noteq> []"
      and m: "m = c # takeWhile is_digit cs @ m'"
      by (auto split: if_splits option.splits)
    from "2.IH" [OF False _ g] c have "dropWhile is_digit cs = m' @ r" by simp
    then have "cs = takeWhile is_digit cs @ m' @ r"
      by (metis takeWhile_dropWhile_id)
    with m show ?thesis by simp
  qed
qed

lemma ansi_match_decomp: "ansi_match s = Some (m, r) \<Longrightarrow> s = m @ r \<and> m \<noteq> []"
proof (induction s rule: ansi_match.induct)
  case (1 e b cs)
  then obtain m' where g: "ansi_groups (dropWhile is_digit cs) = Some (m', r)"
    and m: "m = e # b # takeWhile is_digit cs @ m'"
    by (auto split: if_splits option.splits)
  from ansi_groups_decomp [OF g] have "dropWhile is_digit cs = m' @ r" by simp
  then have "cs = takeWhile is_digit cs @ m' @ r"
    by (metis takeWhile_dropWhile_id)
  with m show ?case by simp
qed simp_all

lemma ansi_match_shorter: "ansi_match s = Some (m, r) \<Longrightarrow> length r < length s"
  using ansi_match_decomp [of s m r] by (cases m) auto

text \<open>
  \<^verbatim>\<open>ansi_re.split(ansi_text)\<close>: the pattern is one capturing group, so the result lists the
  text before the first match, the match, the text up to the next match, and so on, ending
  with the text after the last match. Matches are searched from left to right, each search
  starting where the previous match ended. \<open>acc\<close> is the text read since then.
\<close>

function split_from :: "string \<Rightarrow> string \<Rightarrow> string list" where
  "split_from acc [] = [acc]"
| "split_from acc (c # cs) =
     (case ansi_match (c # cs) of
        Some (m, r) \<Rightarrow> acc # m # split_from [] r
      | None \<Rightarrow> split_from (acc @ [c]) cs)"
  by pat_completeness auto
termination
  by (relation "measure (\<lambda>(acc, s). length s)") (auto dest: ansi_match_shorter)

definition split_ansi_from_text :: "string \<Rightarrow> string list" where
  "split_ansi_from_text ansi_text = split_from [] ansi_text"

text \<open>
  \<^verbatim>\<open>ansi_re.sub('', ansi_text)\<close>: the same left-to-right search, every match replaced by
  the empty string.
\<close>

function ansi_re_sub_empty :: "string \<Rightarrow> string" where
  "ansi_re_sub_empty [] = []"
| "ansi_re_sub_empty (c # cs) =
     (case ansi_match (c # cs) of
        Some (m, r) \<Rightarrow> ansi_re_sub_empty r
      | None \<Rightarrow> c # ansi_re_sub_empty cs)"
  by pat_completeness auto
termination
  by (relation "measure length") (auto dest: ansi_match_shorter)

section \<open>Measuring and slicing\<close>

text \<open>
  Modelled from the spec: the class \<^verbatim>\<open>WideString\<close> of \<^verbatim>\<open>ranger/ext/widestring.py\<close> is
  not among the sources. The spec gives a glyph the width of one cell unless it is a wide
  glyph (CJK ideographs, fullwidth forms), which takes two, and indexes a wide string by
  cells. None of the code points 0..255 is wide, so on the strings of this theory the length
  of a wide string is its number of characters, and \<^verbatim>\<open>chunk[a:b]\<close> is Python's slice of
  a sequence: a missing bound is the end of the sequence on its side, a negative bound
  counts from the end, and a bound outside the sequence is clipped.
\<close>

definition WideString_len :: "string \<Rightarrow> int" where
  "WideString_len chunk = int (length chunk)"

definition slice_bound :: "nat \<Rightarrow> int \<Rightarrow> nat" where
  "slice_bound n k = (if k < 0 then nat (int n + k) else min n (nat k))"

definition WideString_getslice :: "string \<Rightarrow> int option \<Rightarrow> int option \<Rightarrow> string" where
  "WideString_getslice chunk a b =
     (let n = length chunk;
          lo = (case a of None \<Rightarrow> 0 | Some k \<Rightarrow> slice_bound n k);
          hi = (case b of None \<Rightarrow> n | Some k \<Rightarrow> slice_bound n k)
      in take (hi - lo) (drop lo chunk))"

definition char_len :: "string \<Rightarrow> int" where
  "char_len ansi_text = WideString_len (ansi_re_sub_empty ansi_text)"

text \<open>
  The loop of \<^verbatim>\<open>char_slice\<close> over \<^verbatim>\<open>enumerate(split_ansi_from_text(ansi_text))\<close>.
  \<open>i\<close> is the index of the head of the remaining list; \<open>chunks\<close>, \<open>last_color\<close> and
  \<open>pos\<close> are the loop's variables (\<^verbatim>\<open>old_pos\<close> is assigned from \<open>pos\<close> before each
  use). The result is \<open>chunks\<close> when the loop ends, by exhaustion or by \<^verbatim>\<open>break\<close>.
\<close>

fun slice_loop ::
  "int \<Rightarrow> int \<Rightarrow> nat \<Rightarrow> string list \<Rightarrow> string list \<Rightarrow> string \<Rightarrow> int \<Rightarrow> string list" where
  "slice_loop start len i [] chunks last_color pos = chunks"
| "slice_loop start len i (chunk # rest) chunks last_color pos =
     (if i mod 2 = 1 then slice_loop start len (Suc i) rest chunks chunk pos
      else
        let old_pos = pos;
            pos = pos + WideString_len chunk;
            chunks =
              (if pos \<le> start then chunks
               else if old_pos < start \<and> pos \<ge> start then
                 chunks @ [last_color,
                   WideString_getslice chunk (Some (start - old_pos)) (Some (start - old_pos + len))]
               else if pos > len + start then
                 chunks @ [last_color,
                   WideString_getslice chunk None (Some (start - old_pos + len))]
               else chunks @ [last_color, chunk])
        in if pos - start \<ge> len then chunks
           else slice_loop start len (Suc i) rest chunks last_color pos)"

definition char_slice :: "string \<Rightarrow> int \<Rightarrow> int \<Rightarrow> string" where
  "char_slice ansi_text start len =
     concat (slice_loop start len 0 (split_ansi_from_text ansi_text) [] [] 0)"

section \<open>Colours and attributes\<close>

text \<open>
  What the code takes from outside the repository: the constants and functions of the
  \<^verbatim>\<open>curses\<close> module that \<^verbatim>\<open>ranger/gui/color.py\<close> uses, and Python's \<^verbatim>\<open>int\<close> on
  strings that are neither empty nor made of decimal digits only (\<open>int_other\<close>; \<open>None\<close>
  is \<^verbatim>\<open>ValueError\<close>). \<open>color_content\<close> is \<open>None\<close> and \<open>init_color\<close> is \<open>False\<close>
  where the library raises \<^verbatim>\<open>curses.error\<close>.
\<close>

record env =
  A_BOLD :: int
  A_BLINK :: int
  A_REVERSE :: int
  A_UNDERLINE :: int
  A_INVIS :: int
  COLOR_BLACK :: int
  COLOR_BLUE :: int
  COLOR_CYAN :: int
  COLOR_GREEN :: int
  COLOR_MAGENTA :: int
  COLOR_RED :: int
  COLOR_WHITE :: int
  COLOR_YELLOW :: int
  COLORS :: int
  can_change_color :: bool
  color_content :: "int \<Rightarrow> (int \<times> int \<times> int) option"
  init_color :: "int \<Rightarrow> int \<Rightarrow> int \<Rightarrow> int \<Rightarrow> bool"
  int_other :: "string \<Rightarrow> int option"

datatype error = ValueError | IndexError | CursesError

text \<open>
  The mutable state: the function attributes \<^verbatim>\<open>get_color_id.Colors\<close> (a dict, here an
  association list in insertion order; \<open>[]\<close> stands for both \<^verbatim>\<open>None\<close> and the empty
  dict, which the code does not tell apart) and \<^verbatim>\<open>get_color_id.NextColorIndex\<close>, and the
  arguments of the calls of \<^verbatim>\<open>print\<close> in \<^verbatim>\<open>parse_color\<close>.
\<close>

record state =
  Colors :: "((int \<times> int \<times> int) \<times> int) list"
  NextColorIndex :: int
  printed :: "int list list"

definition PredefinedColorCount :: int where
  "PredefinedColorCount = 24"

definition black :: "env \<Rightarrow> int" where "black c = COLOR_BLACK c"
definition blue :: "env \<Rightarrow> int" where "blue c = COLOR_BLUE c"
definition cyan :: "env \<Rightarrow> int" where "cyan c = COLOR_CYAN c"
definition green :: "env \<Rightarrow> int" where "green c = COLOR_GREEN c"
definition magenta :: "env \<Rightarrow> int" where "magenta c = COLOR_MAGENTA c"
definition red :: "env \<Rightarrow> int" where "red c = COLOR_RED c"
definition white :: "env \<Rightarrow> int" where "white c = COLOR_WHITE c"
definition yellow :: "env \<Rightarrow> int" where "yellow c = COLOR_YELLOW c"

definition bold :: "env \<Rightarrow> int" where "bold c = A_BOLD c"
definition blink :: "env \<Rightarrow> int" where "blink c = A_BLINK c"
definition reverse :: "env \<Rightarrow> int" where "reverse c = A_REVERSE c"
definition underline :: "env \<Rightarrow> int" where "underline c = A_UNDERLINE c"
definition invisible :: "env \<Rightarrow> int" where "invisible c = A_INVIS c"

text \<open>
  \<^verbatim>\<open>int(1000 * (float(c) / 256.0))\<close>: the division by 256 and the product are exact in
  double precision for \<open>\<bar>c\<bar> < 2^43\<close>, which covers every colour component, and \<^verbatim>\<open>int\<close>
  rounds towards zero. The rounding of larger arguments is not modelled.
\<close>

definition scale1000 :: "int \<Rightarrow> int" where
  "scale1000 c = (if 0 \<le> c then (1000 * c) div 256 else - ((1000 * (- c)) div 256))"

text \<open>The dict comprehension over the eight basic colours; a later colour with the same
  content replaces the value of an earlier one.\<close>

fun build_colors ::
  "env \<Rightarrow> int list \<Rightarrow> ((int \<times> int \<times> int) \<times> int) list \<Rightarrow> error + ((int \<times> int \<times> int) \<times> int) list" where
  "build_colors c [] d = Inr d"
| "build_colors c (color # rest) d =
     (case color_content c color of
        None \<Rightarrow> Inl CursesError
      | Some k \<Rightarrow> build_colors c rest (AList.update k color d))"

definition get_color_id :: "env \<Rightarrow> int \<Rightarrow> int \<Rightarrow> int \<Rightarrow> state \<Rightarrow> (error + int) \<times> state" where
  "get_color_id c r g b st =
     (case (if Colors st = [] then
              build_colors c
                [black c, blue c, cyan c, green c, magenta c, red c, white c, yellow c] []
            else Inr (Colors st)) of
        Inl e \<Rightarrow> (Inl e, st)
      | Inr colors \<Rightarrow>
          let st = st\<lparr>Colors := colors\<rparr>;
              predefined_color_count = PredefinedColorCount;
              key = (scale1000 r, scale1000 g, scale1000 b)
          in (case map_of colors key of
                Some v \<Rightarrow> (Inr v, st)
              | None \<Rightarrow>
                  if int (length colors) + predefined_color_count \<ge> COLORS c
                     \<or> \<not> can_change_color c
                  then (Inr (- 1), st)
                  else
                    let colid = NextColorIndex st mod (COLORS c - predefined_color_count)
                                  + predefined_color_count
                    in if \<not> init_color c colid (scale1000 r) (scale1000 g) (scale1000 b)
                       then (Inl CursesError, st)
                       else (Inr colid,
                             st\<lparr>Colors := AList.update key colid colors,
                                NextColorIndex := NextColorIndex st + 1\<rparr>)))"

section \<open>The attribute resolver\<close>

text \<open>\<^verbatim>\<open>not x\<close> as \<^verbatim>\<open>&\<close> reads it: \<^verbatim>\<open>True\<close> is 1 and \<^verbatim>\<open>False\<close> is 0.\<close>

definition py_not :: "int \<Rightarrow> int" where
  "py_not x = (if x = 0 then 1 else 0)"

definition parse_attr :: "env \<Rightarrow> int \<Rightarrow> int \<Rightarrow> int \<Rightarrow> int \<Rightarrow> int \<times> int \<times> int" where
  "parse_attr c code fg bg attr =
     (if code = 0 then (- 1, - 1, 0)
      else if code = 1 then (fg, bg, attr OR bold c)
      else if code = 4 then (fg, bg, attr OR underline c)
      else if code = 5 then (fg, bg, attr OR blink c)
      else if code = 7 then (fg, bg, attr OR reverse c)
      else if code = 8 then (fg, bg, attr OR invisible c)
      else if code = 22 then (fg, bg, attr AND py_not (bold c))
      else if code = 24 then (fg, bg, attr AND py_not (underline c))
      else if code = 25 then (fg, bg, attr AND py_not (blink c))
      else if code = 27 then (fg, bg, attr AND py_not (reverse c))
      else if code = 28 then (fg, bg, attr AND py_not (invisible c))
      else if code \<ge> 30 \<and> code \<le> 37 then (code - 30, bg, attr)
      else if code = 39 then (- 1, bg, attr)
      else if code \<ge> 40 \<and> code \<le> 47 then (fg, code - 40, attr)
      else if code = 49 then (fg, - 1, attr)
      else if code \<ge> 90 \<and> code \<le> 97 then (code - 90 + 8, bg, attr)
      else if code = 99 then (- 1, bg, attr)
      else if code \<ge> 100 \<and> code \<le> 107 then (fg, code - 100 + 8, attr)
      else if code = 109 then (fg, - 1, attr)
      else (fg, bg, attr))"

definition parse_indexed_color :: "int \<Rightarrow> int" where
  "parse_indexed_color code = code"

text \<open>\<^verbatim>\<open>(r, g, b) = code\<close> raises \<^verbatim>\<open>ValueError\<close> unless \<open>code\<close> has three elements.\<close>

definition parse_rgb :: "env \<Rightarrow> int list \<Rightarrow> state \<Rightarrow> (error + int) \<times> state" where
  "parse_rgb c code st =
     (case code of [r, g, b] \<Rightarrow> get_color_id c r g b st | _ \<Rightarrow> (Inl ValueError, st))"

text \<open>\<^verbatim>\<open>code[0]\<close> raises \<^verbatim>\<open>IndexError\<close> on the empty list.\<close>

definition parse_color :: "env \<Rightarrow> int list \<Rightarrow> state \<Rightarrow> (error + int) \<times> state" where
  "parse_color c code st =
     (case code of
        [] \<Rightarrow> (Inl IndexError, st)
      | code0 # code1 \<Rightarrow>
          if code0 = 5 then (Inr (parse_indexed_color code0), st)
          else if code0 = 2 then parse_rgb c code1 st
          else (Inr (- 1), st\<lparr>printed := printed st @ [code]\<rparr>))"

definition parse_ansi_code ::
  "env \<Rightarrow> int list \<Rightarrow> int \<Rightarrow> int \<Rightarrow> int \<Rightarrow> state \<Rightarrow> (error + int \<times> int \<times> int) \<times> state" where
  "parse_ansi_code c code fg bg attr st =
     (case code of
        [] \<Rightarrow> (Inl IndexError, st)
      | code0 # code1 \<Rightarrow>
          if code0 = 38 then
            (case parse_color c code1 st of
               (Inl e, st') \<Rightarrow> (Inl e, st')
             | (Inr v, st') \<Rightarrow> (Inr (v, bg, attr), st'))
          else if code0 = 48 then
            (case parse_color c code1 st of
               (Inl e, st') \<Rightarrow> (Inl e, st')
             | (Inr v, st') \<Rightarrow> (Inr (fg, v, attr), st'))
          else (Inr (parse_attr c code0 fg bg attr), st))"

text \<open>\<^verbatim>\<open>attr_args.split(';')\<close>\<close>

fun split_semicolon :: "string \<Rightarrow> string list" where
  "split_semicolon [] = [[]]"
| "split_semicolon (x # xs) =
     (if x = CHR '';'' then [] # split_semicolon xs
      else (case split_semicolon xs of
              [] \<Rightarrow> [[x]]
            | y # ys \<Rightarrow> (x # y) # ys))"

definition digit_value :: "char \<Rightarrow> int" where
  "digit_value d = of_char d - 48"

definition py_int :: "env \<Rightarrow> string \<Rightarrow> int option" where
  "py_int c s =
     (if s = [] then None
      else if list_all is_digit s then Some (foldl (\<lambda>a d. 10 * a + digit_value d) 0 s)
      else int_other c s)"

text \<open>
  \<^verbatim>\<open>map(int, ...)\<close>, read as the list that the subscripts \<^verbatim>\<open>code[0]\<close> and
  \<^verbatim>\<open>code[1:]\<close> of \<^verbatim>\<open>parse_ansi_code\<close> need (what \<^verbatim>\<open>map\<close> returns in Python 2): the
  conversions run from left to right and the first failure raises \<^verbatim>\<open>ValueError\<close>.
\<close>

fun map_int :: "env \<Rightarrow> string list \<Rightarrow> int list option" where
  "map_int c [] = Some []"
| "map_int c (s # ss) =
     (case py_int c s of
        None \<Rightarrow> None
      | Some v \<Rightarrow> map_option ((#) v) (map_int c ss))"

text \<open>
  \<^verbatim>\<open>re.match(r'^.\[(.*).$', chunk)\<close>, giving group 1: a dot matches any character but
  the newline, and \<^verbatim>\<open>$\<close> matches at the end of the string and before a newline that ends it.
\<close>

definition newline :: char where
  "newline = CHR 0x0A"

definition match_attr_args :: "string \<Rightarrow> string option" where
  "match_attr_args chunk =
     (case chunk of
        c0 # c1 # body \<Rightarrow>
          let body = (if body \<noteq> [] \<and> last body = newline then butlast body else body)
          in if c0 \<noteq> newline \<and> c1 = CHR ''['' \<and> body \<noteq> [] \<and> newline \<notin> set body
             then Some (butlast body) else None
      | _ \<Rightarrow> None)"

text \<open>What the generator \<^verbatim>\<open>text_with_fg_bg_attr\<close> yields: a tuple or a chunk of text.\<close>

datatype yielded = Tuple int int int | Chunk string

text \<open>
  One turn of the loop of \<^verbatim>\<open>text_with_fg_bg_attr\<close>: an exception, or what is yielded (if
  anything) and the new \<open>(fg, bg, attr)\<close>; and the state in both cases.
\<close>

definition resolve_chunk ::
  "env \<Rightarrow> string \<Rightarrow> int \<times> int \<times> int \<Rightarrow> state
     \<Rightarrow> (error + yielded option \<times> (int \<times> int \<times> int)) \<times> state" where
  "resolve_chunk c chunk col st =
     (case col of (fg, bg, attr) \<Rightarrow>
        if chunk \<noteq> [] \<and> hd chunk = ESC then
          if last chunk \<noteq> CHR ''m'' then (Inr (None, col), st)
          else
            (case match_attr_args chunk of
               None \<Rightarrow> (Inr (None, col), st)
             | Some attr_args \<Rightarrow>
                 (case map_int c (split_semicolon attr_args) of
                    None \<Rightarrow> (Inl ValueError, st)
                  | Some code \<Rightarrow>
                      (case parse_ansi_code c code fg bg attr st of
                         (Inl e, st') \<Rightarrow> (Inl e, st')
                       | (Inr (fg', bg', attr'), st') \<Rightarrow>
                           (Inr (Some (Tuple fg' bg' attr'), (fg', bg', attr')), st'))))
        else (Inr (Some (Chunk chunk), col), st))"

text \<open>
  The loop: what has been yielded, the exception that ended the iteration if one did, and
  the state afterwards.
\<close>

fun resolve_loop ::
  "env \<Rightarrow> string list \<Rightarrow> int \<times> int \<times> int \<Rightarrow> state \<Rightarrow> (yielded list \<times> error option) \<times> state" where
  "resolve_loop c [] col st = (([], None), st)"
| "resolve_loop c (chunk # rest) col st =
     (case resolve_chunk c chunk col st of
        (Inl e, st') \<Rightarrow> (([], Some e), st')
      | (Inr (y, col'), st') \<Rightarrow>
          (case resolve_loop c rest col' st' of
             ((ys, r), st'') \<Rightarrow> ((case y of None \<Rightarrow> ys | Some v \<Rightarrow> v # ys, r), st'')))"

definition text_with_fg_bg_attr ::
  "env \<Rightarrow> string \<Rightarrow> state \<Rightarrow> (yielded list \<times> error option) \<times> state" where
  "text_with_fg_bg_attr c ansi_text st =
     resolve_loop c (split_ansi_from_text ansi_text) (- 1, - 1, 0) st"

text \<open>
  An environment to run the code in: the attribute bits and colour numbers of ncurses, 256
  colours that can be redefined, and an \<^verbatim>\<open>int\<close> that rejects every other string.
\<close>

definition example_env :: env where
  "example_env =
     \<lparr>A_BOLD = 2097152, A_BLINK = 524288, A_REVERSE = 262144, A_UNDERLINE = 131072,
      A_INVIS = 8388608,
      COLOR_BLACK = 0, COLOR_BLUE = 4, COLOR_CYAN = 6, COLOR_GREEN = 2, COLOR_MAGENTA = 5,
      COLOR_RED = 1, COLOR_WHITE = 7, COLOR_YELLOW = 3,
      COLORS = 256, can_change_color = True,
      color_content = (\<lambda>n. if 0 \<le> n \<and> n < 8
         then Some (if n mod 2 = 1 then 680 else 0,
                    if n div 2 mod 2 = 1 then 680 else 0,
                    if n div 4 = 1 then 680 else 0)
         else None),
      init_color = (\<lambda>colid r g b. True),
      int_other = (\<lambda>s. None)\<rparr>"

definition initial_state :: state where
  "initial_state = \<lparr>Colors = [], NextColorIndex = 0, printed = []\<rparr>"

section \<open>Notions for the properties\<close>

text \<open>The language of the pattern, stated apart from the matcher.\<close>

inductive_set ansi_tail :: "string set" where
  letter: "is_letter l \<Longrightarrow> [l] \<in> ansi_tail"
| group: "ds \<noteq> [] \<Longrightarrow> \<forall>d\<in>set ds. is_digit d \<Longrightarrow> m \<in> ansi_tail
          \<Longrightarrow> CHR '';'' # ds @ m \<in> ansi_tail"

definition ansi_lang :: "string set" where
  "ansi_lang = {ESC # CHR ''['' # ds @ m | ds m. (\<forall>d\<in>set ds. is_digit d) \<and> m \<in> ansi_tail}"

definition contains_ansi :: "string \<Rightarrow> bool" where
  "contains_ansi t = (\<exists>a m b. t = a @ m @ b \<and> m \<in> ansi_lang)"

text \<open>The chunks of a split: text, escape, text, ..., text.\<close>

fun alternating :: "string list \<Rightarrow> bool" where
  "alternating [] = False"
| "alternating [t] = (\<not> contains_ansi t)"
| "alternating (t # e # rest) = (\<not> contains_ansi t \<and> e \<in> ansi_lang \<and> alternating rest)"

text \<open>The text chunks of such a list: the elements at even indices.\<close>

fun texts :: "string list \<Rightarrow> string list" where
  "texts [] = []"
| "texts [t] = [t]"
| "texts (t # e # rest) = t # texts rest"

text \<open>What one text chunk adds to \<open>chunks\<close>.\<close>

definition emitted :: "int \<Rightarrow> int \<Rightarrow> string \<Rightarrow> string \<Rightarrow> int \<Rightarrow> string list" where
  "emitted start len chunk last_color old_pos =
     (let pos = old_pos + int (length chunk) in
      if pos \<le> start then []
      else if old_pos < start then
        [last_color, WideString_getslice chunk (Some (start - old_pos)) (Some (start - old_pos + len))]
      else if pos > len + start then
        [last_color, WideString_getslice chunk None (Some (start - old_pos + len))]
      else [last_color, chunk])"




text \<open>The test string of the docstring of \<^verbatim>\<open>char_slice\<close>.\<close>

definition doctest_string :: string where
  "doctest_string = ''abcde'' @ ESC # ''[30mfoo'' @ ESC # ''[31mbar'' @ ESC # ''[0mnormal''"

section \<open>Properties of the tokenizer\<close>

lemma concat_split_from: "concat (split_from acc s) = acc @ s"
proof (induction acc s rule: split_from.induct)
  case (1 acc)
  then show ?case by simp
next
  case (2 acc c cs)
  show ?case
  proof (cases "ansi_match (c # cs)")
    case None
    with 2 show ?thesis by simp
  next
    case (Some p)
    obtain m r where p: "p = (m, r)" by (cases p)
    from Some p ansi_match_decomp have mr: "m @ r = c # cs" by metis
    from "2.IH"(2) [OF Some p [symmetric]] have "concat (split_from [] r) = r" by simp
    with Some p mr show ?thesis by simp
  qed
qed

text \<open>
  C1. Tokenizer round-trip: concatenating, in order, all the elements of the list returned
  by \<open>split_ansi_from_text s\<close> gives back \<open>s\<close>, for every string \<open>s\<close>.
\<close>

theorem split_ansi_from_text_roundtrip: "concat (split_ansi_from_text s) = s"
  by (simp add: split_ansi_from_text_def concat_split_from)

section \<open>The matcher decides the language of the pattern\<close>

lemma letter_not_digit: "is_letter c \<Longrightarrow> \<not> is_digit c"
  by (auto simp: is_letter_def is_digit_def)

lemma semi_not_digit: "\<not> is_digit CHR '';''"
  by (simp add: is_digit_def)

lemma ESC_class: "\<not> is_digit ESC" "\<not> is_letter ESC" "ESC \<noteq> CHR '';''" "ESC \<noteq> CHR ''[''"
  by (simp_all add: is_digit_def is_letter_def ESC_def)

lemma ansi_tail_head: "m \<in> ansi_tail \<Longrightarrow> \<exists>c cs. m = c # cs \<and> \<not> is_digit c"
  by (induction rule: ansi_tail.induct) (auto simp: letter_not_digit semi_not_digit)

lemma ansi_tail_no_ESC: "m \<in> ansi_tail \<Longrightarrow> ESC \<notin> set m"
  by (induction rule: ansi_tail.induct) (auto simp: ESC_class)

lemma digits_then: 
  assumes "\<forall>d\<in>set ds. is_digit d" "\<not> is_digit c"
  shows "takeWhile is_digit (ds @ c # cs) = ds" "dropWhile is_digit (ds @ c # cs) = c # cs"
  using assms by (induction ds) auto

lemma ansi_groups_complete: "m \<in> ansi_tail \<Longrightarrow> ansi_groups (m @ r) = Some (m, r)"
proof (induction rule: ansi_tail.induct)
  case (letter l)
  then show ?case by simp
next
  case (group ds m)
  from ansi_tail_head [OF group.hyps(3)] obtain c cs where m: "m = c # cs" "\<not> is_digit c" by blast
  have "takeWhile is_digit (ds @ m @ r) = ds" "dropWhile is_digit (ds @ m @ r) = m @ r"
    using digits_then [OF group.hyps(2) m(2)] m(1) by simp_all
  with group show ?case by (simp add: is_letter_def)
qed

lemma ansi_groups_sound: "ansi_groups s = Some (m, r) \<Longrightarrow> m \<in> ansi_tail"
proof (induction s arbitrary: m r rule: ansi_groups.induct)
  case 1
  then show ?case by simp
next
  case (2 c cs)
  show ?case
  proof (cases "is_letter c")
    case True
    with "2.prems" show ?thesis by (auto intro: ansi_tail.letter)
  next
    case False
    with "2.prems" obtain m' where g: "ansi_groups (dropWhile is_digit cs) = Some (m', r)"
      and c: "c = CHR '';''" "takeWhile is_digit cs \<noteq> []"
      and m: "m = c # takeWhile is_digit cs @ m'"
      by (auto split: if_splits option.splits)
    from "2.IH" [OF False _ g] c have "m' \<in> ansi_tail" by simp
    moreover have "\<forall>d\<in>set (takeWhile is_digit cs). is_digit d"
      by (auto dest: set_takeWhileD)
    ultimately show ?thesis using c m by (auto intro: ansi_tail.group)
  qed
qed

lemma ansi_match_sound: "ansi_match s = Some (m, r) \<Longrightarrow> m \<in> ansi_lang"
proof (induction s rule: ansi_match.induct)
  case (1 e b cs)
  then obtain m' where g: "ansi_groups (dropWhile is_digit cs) = Some (m', r)"
    and m: "m = ESC # CHR ''['' # takeWhile is_digit cs @ m'"
    by (auto split: if_splits option.splits)
  have "\<forall>d\<in>set (takeWhile is_digit cs). is_digit d"
    by (auto dest: set_takeWhileD)
  with ansi_groups_sound [OF g] m show ?case
    unfolding ansi_lang_def by blast
qed simp_all

lemma ansi_match_complete: "m \<in> ansi_lang \<Longrightarrow> ansi_match (m @ r) = Some (m, r)"
proof -
  assume "m \<in> ansi_lang"
  then obtain ds t where m: "m = ESC # CHR ''['' # ds @ t" and ds: "\<forall>d\<in>set ds. is_digit d"
    and t: "t \<in> ansi_tail"
    unfolding ansi_lang_def by blast
  from ansi_tail_head [OF t] obtain c cs where c: "t = c # cs" "\<not> is_digit c" by blast
  have "takeWhile is_digit (ds @ t @ r) = ds" "dropWhile is_digit (ds @ t @ r) = t @ r"
    using digits_then [OF ds c(2)] c(1) by simp_all
  with m ansi_groups_complete [OF t] show ?thesis by simp
qed

lemma ansi_match_iff: "ansi_match s = Some (m, r) \<longleftrightarrow> s = m @ r \<and> m \<in> ansi_lang"
  using ansi_match_sound ansi_match_complete ansi_match_decomp by blast

lemma ansi_lang_ESC: "m \<in> ansi_lang \<Longrightarrow> \<exists>m'. m = ESC # m' \<and> m' \<noteq> [] \<and> ESC \<notin> set m'"
proof -
  assume "m \<in> ansi_lang"
  then obtain ds t where m: "m = ESC # CHR ''['' # ds @ t" and ds: "\<forall>d\<in>set ds. is_digit d"
    and t: "t \<in> ansi_tail"
    unfolding ansi_lang_def by blast
  from ds ESC_class(1) have "ESC \<notin> set ds" by blast
  with ansi_tail_no_ESC [OF t] m show ?thesis by (simp add: ESC_class)
qed

lemma ansi_match_within:
  assumes "ansi_match (u @ v) = Some (m, r)" "u \<noteq> []" "v = [] \<or> hd v = ESC"
  shows "\<exists>r'. u = m @ r'"
proof -
  from assms(1) have uv: "u @ v = m @ r" and ml: "m \<in> ansi_lang"
    by (simp_all add: ansi_match_iff)
  from ansi_lang_ESC [OF ml] obtain m' where m: "m = ESC # m'" "ESC \<notin> set m'" by blast
  from uv consider w where "u = m @ w" | w where "u @ w = m" "v = w @ r" "w \<noteq> []"
    unfolding append_eq_append_conv2 by (metis append_Nil2)
  then show ?thesis
  proof cases
    case 1
    then show ?thesis by blast
  next
    case 2
    with assms(3) have "hd w = ESC" by (cases v) auto
    with 2 have "ESC \<in> set w" by (cases w) auto
    moreover from 2(1) m assms(2) have "set w \<subseteq> set m'" by (cases u) auto
    ultimately show ?thesis using m by blast
  qed
qed






lemma alternating_split_from:
  "(\<And>u. suffix u acc \<Longrightarrow> u \<noteq> [] \<Longrightarrow> ansi_match (u @ s) = None)
   \<Longrightarrow> alternating (split_from acc s)"
proof (induction acc s rule: split_from.induct)
  case (1 acc)
  have "\<not> contains_ansi acc"
  proof
    assume "contains_ansi acc"
    then obtain a m b where acc: "acc = a @ m @ b" and m: "m \<in> ansi_lang"
      unfolding contains_ansi_def by blast
    from ansi_lang_ESC [OF m] have "m @ b \<noteq> []" by auto
    moreover have "suffix (m @ b) acc" using acc by (simp add: suffix_def)
    ultimately have "ansi_match ((m @ b) @ []) = None" by (rule "1.prems" [rotated])
    with ansi_match_complete [OF m, of b] show False by simp
  qed
  then show ?case by simp
next
  case (2 acc c cs)
  have tx: "\<not> contains_ansi acc"
  proof
    assume "contains_ansi acc"
    then obtain a m b where acc: "acc = a @ m @ b" and m: "m \<in> ansi_lang"
      unfolding contains_ansi_def by blast
    from ansi_lang_ESC [OF m] have "m @ b \<noteq> []" by auto
    moreover have "suffix (m @ b) acc" using acc by (simp add: suffix_def)
    ultimately have "ansi_match ((m @ b) @ c # cs) = None" by (rule "2.prems" [rotated])
    with ansi_match_complete [OF m, of "b @ c # cs"] show False by simp
  qed
  show ?case
  proof (cases "ansi_match (c # cs)")
    case None
    have "alternating (split_from (acc @ [c]) cs)"
    proof (rule "2.IH"(1) [OF None])
      fix u
      assume u: "suffix u (acc @ [c])" "u \<noteq> []"
      then obtain u' where u': "u = u' @ [c]" "suffix u' acc"
        by (metis suffix_snoc suffix_bot.extremum_uniqueI snoc_suffix_snoc append_butlast_last_id suffix_order.dual_order.refl suffix_Nil)
      show "ansi_match (u @ cs) = None"
      proof (cases "u' = []")
        case True
        with u' None show ?thesis by simp
      next
        case False
        with "2.prems" [OF u'(2)] u'(1) show ?thesis by simp
      qed
    qed
    with None show ?thesis by simp
  next
    case (Some p)
    obtain m r where p: "p = (m, r)" by (cases p)
    have "alternating (split_from [] r)"
      by (rule "2.IH"(2) [OF Some p [symmetric]]) simp
    moreover from Some p have "m \<in> ansi_lang" by (auto dest: ansi_match_sound)
    ultimately show ?thesis using Some p tx by simp
  qed
qed

lemma alternating_split: "alternating (split_ansi_from_text s)"
  unfolding split_ansi_from_text_def by (rule alternating_split_from) simp

lemma sub_empty_split_from: "acc @ ansi_re_sub_empty s = concat (texts (split_from acc s))"
proof (induction acc s rule: split_from.induct)
  case (1 acc)
  then show ?case by simp
next
  case (2 acc c cs)
  show ?case
  proof (cases "ansi_match (c # cs)")
    case None
    with "2.IH"(1) [OF None] show ?thesis by simp
  next
    case (Some p)
    obtain m r where p: "p = (m, r)" by (cases p)
    from "2.IH"(2) [OF Some p [symmetric]] Some p show ?thesis by simp
  qed
qed

lemma char_len_texts: "char_len s = int (length (concat (texts (split_ansi_from_text s))))"
  using sub_empty_split_from [of "[]" s]
  by (simp add: char_len_def WideString_len_def split_ansi_from_text_def)



lemma alternating_nth:
  "alternating cs \<Longrightarrow> odd (length cs) \<and>
     (\<forall>i<length cs. if odd i then cs ! i \<in> ansi_lang else \<not> contains_ansi (cs ! i))"
proof (induction cs rule: alternating.induct)
  case 1
  then show ?case by simp
next
  case (2 t)
  then show ?case by simp
next
  case (3 t e rest)
  then have t: "\<not> contains_ansi t" and e: "e \<in> ansi_lang"
    and IH: "odd (length rest)"
      "\<And>i. i < length rest \<Longrightarrow> if odd i then rest ! i \<in> ansi_lang else \<not> contains_ansi (rest ! i)"
    by simp_all
  have "if odd i then (t # e # rest) ! i \<in> ansi_lang else \<not> contains_ansi ((t # e # rest) ! i)"
    if "i < length (t # e # rest)" for i
  proof (cases i)
    case 0
    with t show ?thesis by simp
  next
    case (Suc j)
    show ?thesis
    proof (cases j)
      case 0
      with Suc e show ?thesis by simp
    next
      case (Suc k)
      with \<open>i = Suc j\<close> that IH(2) [of k] show ?thesis by simp
    qed
  qed
  with IH(1) show ?case by simp
qed

text \<open>
  C10. Tokenizer alternation: for every string \<open>s\<close> the list returned by
  \<open>split_ansi_from_text s\<close> has odd length, each element at an odd index is one complete
  escape sequence (a word of the pattern's language: introducer, optional numeric parameters,
  one terminating letter), and each element at an even index is literal text with no
  substring in that language. So the test \<^verbatim>\<open>i % 2 == 1\<close> of \<^verbatim>\<open>char_slice\<close> picks
  exactly the escape sequences.
\<close>

theorem split_ansi_from_text_alternates:
  "odd (length (split_ansi_from_text s)) \<and>
   (\<forall>i<length (split_ansi_from_text s).
      if odd i then split_ansi_from_text s ! i \<in> ansi_lang
      else \<not> contains_ansi (split_ansi_from_text s ! i))"
  by (rule alternating_nth [OF alternating_split])

theorem split_ansi_from_text_alternates_witness:
  "split_ansi_from_text (''ab'' @ ESC # ''[0;1mcd'') = [''ab'', ESC # ''[0;1m'', ''cd'']
   \<and> ESC # ''[0;1m'' \<in> ansi_lang \<and> \<not> contains_ansi ''ab'' \<and> \<not> contains_ansi ''cd''"
proof -
  let ?s = "''ab'' @ ESC # ''[0;1mcd''"
  have s: "split_ansi_from_text ?s = [''ab'', ESC # ''[0;1m'', ''cd'']"
    by (simp add: split_ansi_from_text_def is_digit_def is_letter_def ESC_def)
  from split_ansi_from_text_alternates [of ?s]
  have "\<forall>i<length (split_ansi_from_text ?s).
      if odd i then split_ansi_from_text ?s ! i \<in> ansi_lang
      else \<not> contains_ansi (split_ansi_from_text ?s ! i)" by (rule conjunct2)
  then have "\<forall>i<3. if odd i then [''ab'', ESC # ''[0;1m'', ''cd''] ! i \<in> ansi_lang
      else \<not> contains_ansi ([''ab'', ESC # ''[0;1m'', ''cd''] ! i)"
    unfolding s by simp
  from this [rule_format, of 0] this [rule_format, of 1] this [rule_format, of 2] s
  show ?thesis by simp
qed

section \<open>Properties of the slicer\<close>

lemma slice_loop_acc:
  "slice_loop start len i cs chunks lc pos = chunks @ slice_loop start len i cs [] lc pos"
proof (induction cs arbitrary: i chunks lc pos)
  case Nil
  then show ?case by simp
next
  case (Cons c cs)
  show ?case
  proof (cases "i mod 2 = 1")
    case True
    with Cons.IH [of "Suc i" chunks c pos] show ?thesis by simp
  next
    case False
    let ?pos = "pos + WideString_len c"
    let ?em = "emitted start len c lc pos"
    have step: "slice_loop start len i (c # cs) ch lc pos =
      (if ?pos - start \<ge> len then ch @ ?em else slice_loop start len (Suc i) cs (ch @ ?em) lc ?pos)"
      for ch
      using False by (simp add: Let_def emitted_def WideString_len_def)
    show ?thesis
      unfolding step [of chunks] step [of "[]"]
      using Cons.IH [of "Suc i" "chunks @ ?em" lc ?pos] Cons.IH [of "Suc i" "?em" lc ?pos]
      by simp
  qed
qed

lemma slice_loop_odd:
  "odd i \<Longrightarrow> slice_loop start len i (e # rest) chunks lc pos = slice_loop start len (Suc i) rest chunks e pos"
  by (simp add: odd_iff_mod_2_eq_one)

lemma slice_loop_even:
  "even i \<Longrightarrow> slice_loop start len i (t # rest) [] lc pos =
     emitted start len t lc pos @
     (if pos + int (length t) - start \<ge> len then []
      else slice_loop start len (Suc i) rest [] lc (pos + int (length t)))"
proof -
  assume "even i"
  then have "i mod 2 \<noteq> 1" by presburger
  then have "slice_loop start len i (t # rest) [] lc pos =
      (if pos + int (length t) - start \<ge> len then emitted start len t lc pos
       else slice_loop start len (Suc i) rest (emitted start len t lc pos) lc (pos + int (length t)))"
    by (simp add: Let_def emitted_def WideString_len_def)
  then show ?thesis
    using slice_loop_acc [of start len "Suc i" rest "emitted start len t lc pos" lc "pos + int (length t)"]
    by simp
qed


lemma emitted_cases:
  fixes a b pos :: int and t :: string
  defines "n \<equiv> int (length t)"
  shows "pos + n \<le> a \<Longrightarrow> emitted a len t lc pos = []"
    and "a < pos + n \<Longrightarrow> pos < a \<Longrightarrow> emitted a len t lc pos =
          [lc, WideString_getslice t (Some (a - pos)) (Some (a - pos + len))]"
    and "a < pos + n \<Longrightarrow> a \<le> pos \<Longrightarrow> len + a < pos + n \<Longrightarrow> emitted a len t lc pos =
          [lc, WideString_getslice t None (Some (a - pos + len))]"
    and "a < pos + n \<Longrightarrow> a \<le> pos \<Longrightarrow> pos + n \<le> len + a \<Longrightarrow> emitted a len t lc pos = [lc, t]"
  by (simp_all add: emitted_def n_def)














lemma ansi_match_extend:
  assumes "u \<noteq> []" "v = [] \<or> hd v = ESC"
  shows "ansi_match (u @ v) = map_option (\<lambda>(m, r). (m, r @ v)) (ansi_match u)"
proof (cases "ansi_match u")
  case None
  have "ansi_match (u @ v) = None"
  proof (rule ccontr)
    assume "ansi_match (u @ v) \<noteq> None"
    then obtain m r where mr: "ansi_match (u @ v) = Some (m, r)" by auto
    from ansi_match_within [OF mr assms] obtain r' where "u = m @ r'" by blast
    with ansi_match_sound [OF mr] ansi_match_complete [of m r'] None show False by simp
  qed
  with None show ?thesis by simp
next
  case (Some p)
  obtain m r where p: "p = (m, r)" by (cases p)
  with Some have "u = m @ r" "m \<in> ansi_lang" by (simp_all add: ansi_match_iff)
  with ansi_match_complete [of m "r @ v"] Some p show ?thesis by simp
qed

lemma split_from_before_esc:
  "e \<in> ansi_lang \<Longrightarrow> split_from acc (pre @ e @ r) = split_from acc pre @ e # split_from [] r"
proof (induction acc pre rule: split_from.induct)
  case (1 acc)
  from ansi_lang_ESC [OF 1] obtain e' where e': "e = ESC # e'" by blast
  with ansi_match_complete [OF 1, of r] show ?case by simp
next
  case (2 acc c cs)
  from ansi_lang_ESC [OF "2.prems"] have hd: "e @ r = [] \<or> hd (e @ r) = ESC" by auto
  have ext: "ansi_match ((c # cs) @ e @ r) = map_option (\<lambda>(m, r'). (m, r' @ e @ r)) (ansi_match (c # cs))"
    by (rule ansi_match_extend [OF _ hd]) simp
  show ?case
  proof (cases "ansi_match (c # cs)")
    case None
    with ext "2.IH"(1) [OF None "2.prems"] show ?thesis by simp
  next
    case (Some p)
    obtain m r' where p: "p = (m, r')" by (cases p)
    from "2.IH"(2) [OF Some p [symmetric] "2.prems"] ext Some p show ?thesis by simp
  qed
qed

lemma split_from_nonempty: "\<exists>t rest. split_from acc s = t # rest \<and> (texts (split_from acc s) \<noteq> [])"
  by (induction acc s rule: split_from.induct) (auto split: option.splits)

lemma split_from_odd: "odd (length (split_from acc s))"
  by (induction acc s rule: split_from.induct) (auto split: option.splits)

lemma slice_loop_skip:
  assumes "0 < n"
  shows "even i \<Longrightarrow> odd (length cs1) \<Longrightarrow> pos + int (length (concat (texts cs1))) \<le> start \<Longrightarrow>
    slice_loop start n i (cs1 @ e # rest) [] lc pos =
      slice_loop start n (Suc (i + length cs1)) rest [] e (pos + int (length (concat (texts cs1))))"
proof (induction cs1 arbitrary: i lc pos rule: texts.induct)
  case 1
  then show ?case by simp
next
  case (2 t)
  from "2.prems"(3) have le: "pos + int (length t) \<le> start" by simp
  from "2.prems"(1) have odd: "odd (Suc i)" by simp
  from emitted_cases(1) [OF le] slice_loop_even [OF "2.prems"(1), of start n t "e # rest" lc pos] le assms
  have "slice_loop start n i ([t] @ e # rest) [] lc pos =
        slice_loop start n (Suc i) (e # rest) [] lc (pos + int (length t))" by simp
  with slice_loop_odd [OF odd, of start n e rest "[]" lc "pos + int (length t)"]
  show ?case by simp
next
  case (3 t e' cs)
  from "3.prems"(3) have le: "pos + int (length t) \<le> start"
    and le': "pos + int (length t) + int (length (concat (texts cs))) \<le> start" by simp_all
  from "3.prems"(1) have odd: "odd (Suc i)" and ev: "even (Suc (Suc i))" by simp_all
  from "3.prems"(2) have ol: "odd (length cs)" by simp
  from emitted_cases(1) [OF le] slice_loop_even [OF "3.prems"(1), of start n t "e' # cs @ e # rest" lc pos] le assms
  have "slice_loop start n i ((t # e' # cs) @ e # rest) [] lc pos =
        slice_loop start n (Suc i) (e' # cs @ e # rest) [] lc (pos + int (length t))" by simp
  also have "\<dots> = slice_loop start n (Suc (Suc i)) (cs @ e # rest) [] e' (pos + int (length t))"
    by (rule slice_loop_odd [OF odd])
  also have "\<dots> = slice_loop start n (Suc (Suc (Suc i) + length cs)) rest [] e
       (pos + int (length t) + int (length (concat (texts cs))))"
    by (rule "3.IH" [OF ev ol le'])
  finally show ?case by (simp add: add.assoc)
qed

lemma emitted_starts:
  assumes "pos \<le> start" "start < pos + int (length t)"
  shows "\<exists>p. emitted start n t lc pos = [lc, p]"
proof -
  consider "pos < start" | "start \<le> pos" "n + start < pos + int (length t)"
    | "start \<le> pos" "pos + int (length t) \<le> n + start" by linarith
  then show ?thesis
  proof cases
    case 1
    with emitted_cases(2) [OF assms(2) 1] show ?thesis by blast
  next
    case 2
    with emitted_cases(3) [OF assms(2) 2] show ?thesis by blast
  next
    case 3
    with emitted_cases(4) [OF assms(2) 3] show ?thesis by blast
  qed
qed

lemma char_slice_prefix_esc:
  assumes e: "e \<in> ansi_lang" and n: "0 < n" and lo: "char_len pre \<le> start"
    and hi: "start < char_len pre + int (length (hd (split_ansi_from_text r)))"
  shows "prefix e (char_slice (pre @ e @ r) start n)"
proof -
  let ?cs1 = "split_from [] pre"
  let ?p = "int (length (concat (texts ?cs1)))"
  obtain t rest where r: "split_from [] r = t # rest"
    using split_from_nonempty [of "[]" r] by blast
  have len: "char_len pre = ?p"
    by (simp add: char_len_texts split_ansi_from_text_def)
  have "split_ansi_from_text (pre @ e @ r) = ?cs1 @ e # t # rest"
    using split_from_before_esc [OF e, of "[]" pre r] r by (simp add: split_ansi_from_text_def)
  then have "slice_loop start n 0 (split_ansi_from_text (pre @ e @ r)) [] [] 0 =
        slice_loop start n (Suc (0 + length ?cs1)) (t # rest) [] e (0 + ?p)"
    using slice_loop_skip [OF n, of 0 ?cs1 0 start e "t # rest" "[]"] split_from_odd [of "[]" pre] lo len
    by simp
  moreover have "even (Suc (0 + length ?cs1))" using split_from_odd [of "[]" pre] by simp
  moreover have "\<exists>p. emitted start n t e (0 + ?p) = [e, p]"
    using emitted_starts [of "0 + ?p" start t n e] lo hi len r by (simp add: split_ansi_from_text_def)
  ultimately obtain p out where "slice_loop start n 0 (split_ansi_from_text (pre @ e @ r)) [] [] 0 = [e, p] @ out"
    using slice_loop_even [of "Suc (0 + length ?cs1)" start n t rest e "0 + ?p"] by auto
  then show ?thesis by (simp add: char_slice_def)
qed

lemma char_slice_doctest: "char_slice doctest_string 5 6 = ESC # ''[30mfoo'' @ ESC # ''[31mbar''"
  by (simp add: doctest_string_def char_slice_def split_ansi_from_text_def WideString_len_def
      WideString_getslice_def slice_bound_def is_digit_def is_letter_def ESC_def)



text \<open>
  C5. The escape sequence seen last is emitted before the first text of the slice, also when
  it lies before the start of the slice: if the slice starts in the text chunk that follows
  the escape sequence \<open>e\<close> (the visible length of what precedes \<open>e\<close> is at most \<open>start\<close>, and
  \<open>start\<close> falls inside the chunk after \<open>e\<close>) and the length is positive, the slice begins
  with \<open>e\<close>. And \<^verbatim>\<open>char_slice("abcde\x1b[30mfoo\x1b[31mbar\x1b[0mnormal", 5, 6)\<close> is
  \<^verbatim>\<open>"\x1b[30mfoo\x1b[31mbar"\<close>.
\<close>

theorem char_slice_emits_last_color:
  "(\<forall>pre e r start n.
      e \<in> ansi_lang \<and> 0 < n \<and> char_len pre \<le> start
      \<and> start < char_len pre + int (length (hd (split_ansi_from_text r)))
      \<longrightarrow> prefix e (char_slice (pre @ e @ r) start n))
   \<and> char_slice (''abcde'' @ ESC # ''[30mfoo'' @ ESC # ''[31mbar'' @ ESC # ''[0mnormal'') 5 6
       = ESC # ''[30mfoo'' @ ESC # ''[31mbar''"
  using char_slice_prefix_esc char_slice_doctest by (simp add: doctest_string_def)

theorem char_slice_emits_last_color_witness:
  "ESC # ''[31m'' \<in> ansi_lang \<and> (0::int) < 4
   \<and> char_len (''abcde'' @ ESC # ''[30mfoo'') \<le> 9
   \<and> 9 < char_len (''abcde'' @ ESC # ''[30mfoo'')
        + int (length (hd (split_ansi_from_text (''bar'' @ ESC # ''[0mnormal''))))
   \<and> prefix (ESC # ''[31m'')
        (char_slice ((''abcde'' @ ESC # ''[30mfoo'') @ (ESC # ''[31m'') @ (''bar'' @ ESC # ''[0mnormal'')) 9 4)"
proof -
  have m: "ansi_match (ESC # ''[31m'') = Some (ESC # ''[31m'', [])"
    by (simp add: is_digit_def is_letter_def ESC_def)
  have e: "ESC # ''[31m'' \<in> ansi_lang" by (rule ansi_match_sound [OF m])
  have l: "char_len (''abcde'' @ ESC # ''[30mfoo'') = 8"
    by (simp add: char_len_def WideString_len_def is_digit_def is_letter_def ESC_def)
  have h: "hd (split_ansi_from_text (''bar'' @ ESC # ''[0mnormal'')) = ''bar''"
    by (simp add: split_ansi_from_text_def is_digit_def is_letter_def ESC_def)
  from char_slice_emits_last_color [THEN conjunct1, rule_format,
      of "ESC # ''[31m''" 4 "''abcde'' @ ESC # ''[30mfoo''" 9 "''bar'' @ ESC # ''[0mnormal''"]
    e l h
  show ?thesis by simp
qed









section \<open>Properties of the resolver\<close>

lemmas tokenizer_eval = split_ansi_from_text_def is_digit_def is_letter_def ESC_def

lemma split_one_escape:
  "e \<in> ansi_lang \<Longrightarrow> split_ansi_from_text e = [[], e, []]"
proof -
  assume e: "e \<in> ansi_lang"
  from ansi_lang_ESC [OF e] obtain e' where e': "e = ESC # e'" by blast
  from ansi_match_complete [OF e, of "[]"] e' show ?thesis
    by (simp add: split_ansi_from_text_def)
qed

lemma resolve_chunk_text: "resolve_chunk c [] col st = (Inr (Some (Chunk []), col), st)"
  by (cases col) (simp add: resolve_chunk_def)

lemma in_ansi_lang: "ansi_match e = Some (e, []) \<Longrightarrow> e \<in> ansi_lang"
  by (rule ansi_match_sound)

lemma parse_attr_disable_bold: "bold c \<noteq> 0 \<Longrightarrow> parse_attr c 22 fg bg attr = (fg, bg, 0)"
  by (simp add: parse_attr_def py_not_def)

lemma parse_attr_example:
  "parse_attr example_env 1 (- 1) (- 1) 131072 = (- 1, - 1, 2228224)"
  "parse_attr example_env 22 (- 1) (- 1) 2228224 = (- 1, - 1, 0)"
  by (simp_all add: parse_attr_def py_not_def bold_def example_env_def)


text \<open>
  C2. Attribute toggling: enabling an attribute (codes 1, 4, 5, 7, 8) and then disabling it
  (codes 22, 24, 25, 27, 28) should give back the prior bitmask, the disable code clearing
  its own bit only. The code does not: \<^verbatim>\<open>attr &= not color.bold\<close> masks with a truth
  value, so that with underline set before, enabling bold and disabling it again leaves no
  attribute at all.
\<close>

theorem parse_attr_disable_clears_all:
  "underline example_env = 131072
   \<and> parse_attr example_env 1 (- 1) (- 1) 131072 = (- 1, - 1, 2228224)
   \<and> parse_attr example_env 22 (- 1) (- 1) 2228224 = (- 1, - 1, 0)"
  using parse_attr_example by (simp add: underline_def example_env_def)

lemma parse_ansi_code_indexed:
  "parse_ansi_code c (38 # 5 # code2) fg bg attr st = (Inr (5, bg, attr), st)"
  by (simp add: parse_ansi_code_def parse_color_def parse_indexed_color_def)

lemma resolve_indexed_example:
  "text_with_fg_bg_attr c (ESC # ''[38;5;196m'') st = (([Chunk [], Tuple 5 (- 1) 0, Chunk []], None), st)"
proof -
  have "ansi_match (ESC # ''[38;5;196m'') = Some (ESC # ''[38;5;196m'', [])"
    by (simp add: is_digit_def is_letter_def)
  then have s: "split_ansi_from_text (ESC # ''[38;5;196m'') = [[], ESC # ''[38;5;196m'', []]"
    by (intro split_one_escape in_ansi_lang)
  have m: "map_int c (split_semicolon ''38;5;196'') = Some [38, 5, 196]"
    by (simp add: py_int_def is_digit_def digit_value_def)
  have "resolve_chunk c (ESC # ''[38;5;196m'') (- 1, - 1, 0) st
          = (Inr (Some (Tuple 5 (- 1) 0), (5, - 1, 0)), st)"
    using m parse_ansi_code_indexed [of c "[196]" "- 1" "- 1" 0 st]
    by (simp add: resolve_chunk_def match_attr_args_def newline_def ESC_def)
  then show ?thesis
    by (simp add: text_with_fg_bg_attr_def s resolve_chunk_text)
qed


text \<open>
  C3. Indexed extended colour: the parameters \<open>38;5;N\<close> should set \<open>fg\<close> to \<open>N\<close>. The code
  passes \<^verbatim>\<open>code[0]\<close>, which is the 5 it has just tested, to \<^verbatim>\<open>parse_indexed_color\<close>: \<open>fg\<close>
  becomes 5 whatever \<open>N\<close> is (\<open>bg\<close> and \<open>attr\<close> are left as they were), and parsing
  \<^verbatim>\<open>"\x1b[38;5;196m"\<close> yields \<open>fg = 5\<close>.
\<close>

theorem parse_indexed_color_yields_five:
  "parse_ansi_code c [38, 5, n] fg bg attr st = (Inr (5, bg, attr), st)
   \<and> text_with_fg_bg_attr c (ESC # ''[38;5;196m'') st
        = (([Chunk [], Tuple 5 (- 1) 0, Chunk []], None), st)"
  using parse_ansi_code_indexed [of c "[n]" fg bg attr st] resolve_indexed_example [of c st]
  by simp

lemma resolve_empty_params:
  "text_with_fg_bg_attr c (ESC # ''[m'') st = (([Chunk []], Some ValueError), st)"
proof -
  have "ansi_match (ESC # ''[m'') = Some (ESC # ''[m'', [])"
    by (simp add: is_digit_def is_letter_def)
  then have s: "split_ansi_from_text (ESC # ''[m'') = [[], ESC # ''[m'', []]"
    by (intro split_one_escape in_ansi_lang)
  have "resolve_chunk c (ESC # ''[m'') (- 1, - 1, 0) st = (Inl ValueError, st)"
    by (simp add: resolve_chunk_def match_attr_args_def newline_def ESC_def py_int_def)
  then show ?thesis
    by (simp add: text_with_fg_bg_attr_def s resolve_chunk_text)
qed

lemma parse_ansi_code_reset: "parse_ansi_code c (0 # code1) fg bg attr st = (Inr (- 1, - 1, 0), st)"
  by (simp add: parse_ansi_code_def parse_attr_def)


text \<open>
  C6. Reset: a first parameter 0 resets the state to \<open>(-1, -1, 0)\<close>
  (\<open>parse_ansi_code_reset\<close>), and so should an empty parameter list. The code gives the
  empty parameter to \<^verbatim>\<open>int\<close>: resolving \<^verbatim>\<open>"\x1b[m"\<close> yields the empty text before the
  sequence and then raises \<^verbatim>\<open>ValueError\<close>.
\<close>

theorem resolve_empty_parameter_raises:
  "text_with_fg_bg_attr c (ESC # ''[m'') st = (([Chunk []], Some ValueError), st)"
  by (rule resolve_empty_params)







lemma resolve_chunk_non_sgr:
  assumes "e \<in> ansi_lang" "last e \<noteq> CHR ''m''"
  shows "resolve_chunk c e col st = (Inr (None, col), st)"
proof -
  from ansi_lang_ESC [OF assms(1)] obtain e' where "e = ESC # e'" by blast
  with assms(2) show ?thesis by (cases col) (simp add: resolve_chunk_def)
qed

lemma resolve_loop_skip:
  assumes "resolve_chunk c e col st = (Inr (None, col), st)"
  shows "resolve_loop c (e # ys) col st = resolve_loop c ys col st"
  using assms by (simp split: prod.splits)

lemma resolve_loop_non_sgr:
  assumes "e \<in> ansi_lang" "last e \<noteq> CHR ''m''"
  shows "resolve_loop c (xs @ e # ys) col st = resolve_loop c (xs @ ys) col st"
proof (induction xs arbitrary: col st)
  case Nil
  from resolve_loop_skip [OF resolve_chunk_non_sgr [OF assms]] show ?case by simp
next
  case (Cons x xs)
  then show ?case by (simp split: prod.splits sum.splits)
qed

lemma texts_append_odd: "odd (length cs1) \<Longrightarrow> texts (cs1 @ e # cs2) = texts cs1 @ texts cs2"
  by (induction cs1 rule: texts.induct) simp_all

lemma char_len_around_esc:
  assumes "e \<in> ansi_lang"
  shows "char_len (pre @ e @ r) = char_len pre + char_len r"
  using split_from_before_esc [OF assms, of "[]" pre r] split_from_odd [of "[]" pre]
  by (simp add: char_len_texts split_ansi_from_text_def texts_append_odd)

lemma resolve_non_sgr_example:
  "text_with_fg_bg_attr c (ESC # ''[2Jx'') st = (([Chunk [], Chunk ''x''], None), st)"
proof -
  have s: "split_ansi_from_text (ESC # ''[2Jx'') = [[], ESC # ''[2J'', ''x'']"
    by (simp add: tokenizer_eval)
  have "resolve_chunk c (ESC # ''[2J'') col st = (Inr (None, col), st)" for col
    by (cases col) (simp add: resolve_chunk_def)
  moreover have "resolve_chunk c ''x'' col st = (Inr (Some (Chunk ''x''), col), st)" for col
    by (cases col) (simp add: resolve_chunk_def ESC_def)
  ultimately show ?thesis
    by (simp add: text_with_fg_bg_attr_def s resolve_chunk_text)
qed

text \<open>
  C9, as stated, fails in its last part: an escape sequence whose terminating letter is not
  \<open>m\<close> is not passed through to what \<^verbatim>\<open>text_with_fg_bg_attr\<close> yields. For
  \<^verbatim>\<open>"\x1b[2Jx"\<close> the generator yields the empty text before the sequence and the text
  \<open>x\<close> after it, and nothing for the sequence.
\<close>

theorem non_sgr_escape_counterexample:
  "text_with_fg_bg_attr example_env (ESC # ''[2Jx'') initial_state
     = (([Chunk [], Chunk ''x''], None), initial_state)
   \<and> Chunk (ESC # ''[2J'')
       \<notin> set (fst (fst (text_with_fg_bg_attr example_env (ESC # ''[2Jx'') initial_state)))"
  by (simp add: resolve_non_sgr_example)

text \<open>
  C9, amended. For every escape sequence \<open>e\<close> whose terminating letter is not \<open>m\<close>: the turn
  of the resolver's loop for \<open>e\<close> leaves \<open>(fg, bg, attr)\<close> and the state as they were and
  yields nothing, so that the resolver runs on the chunks around \<open>e\<close> as if \<open>e\<close> were not
  there (the sequence is dropped, not passed through); and \<open>e\<close> has no visible width:
  the visible length of \<open>pre @ e @ r\<close> is that of \<open>pre\<close> plus that of \<open>r\<close>.
\<close>

theorem non_sgr_escape_is_dropped:
  "e \<in> ansi_lang \<and> last e \<noteq> CHR ''m'' \<longrightarrow>
     resolve_chunk c e col st = (Inr (None, col), st)
     \<and> resolve_loop c (xs @ e # ys) col st = resolve_loop c (xs @ ys) col st
     \<and> char_len (pre @ e @ r) = char_len pre + char_len r"
  using resolve_chunk_non_sgr [of e c col st] resolve_loop_non_sgr [of e c xs ys col st]
    char_len_around_esc [of e pre r]
  by simp

theorem non_sgr_escape_is_dropped_witness:
  "ESC # ''[2J'' \<in> ansi_lang \<and> last (ESC # ''[2J'') \<noteq> CHR ''m''
   \<and> resolve_chunk example_env (ESC # ''[2J'') (1, 2, 0) initial_state
       = (Inr (None, (1, 2, 0)), initial_state)
   \<and> resolve_loop example_env ([[]] @ (ESC # ''[2J'') # [''x'']) (1, 2, 0) initial_state
       = resolve_loop example_env ([[]] @ [''x'']) (1, 2, 0) initial_state
   \<and> char_len (''ab'' @ (ESC # ''[2J'') @ ''x'') = char_len ''ab'' + char_len ''x''"
proof -
  have "ansi_match (ESC # ''[2J'') = Some (ESC # ''[2J'', [])"
    by (simp add: is_digit_def is_letter_def)
  then have e: "ESC # ''[2J'' \<in> ansi_lang" by (rule in_ansi_lang)
  have l: "last (ESC # ''[2J'') \<noteq> CHR ''m''" by simp
  from non_sgr_escape_is_dropped [of "ESC # ''[2J''" example_env "(1, 2, 0)" initial_state
      "[[]]" "[''x'']" "''ab''" "''x''"] e l
  show ?thesis by simp
qed

end
